theory Spec2Isabelle
  imports Main "HOL-Library.Multiset"
begin

section \<open>Data model\<close>

text \<open>
  The errors the fetch paths can meet. The code catches every exception without
  looking at it; the three values name where it arose: the indexer request
  (\<open>getMessages\<close>), the RPC request (\<open>rpc.getEvents\<close>, \<open>rpc.getLatestLedger\<close>)
  and the decoding of one raw event (\<open>event.topic[0].address()\<close> on a topic that is
  missing or is not an address).
\<close>

datatype error = IndexerUnavailable | RpcUnavailable | MalformedEvent

text \<open>
  \<open>xdr.ScAddress\<close>, the union behind \<open>topic0\<close>. \<open>topic0.switch().name\<close> is the
  constructor. The payload of the two kinds the code decodes is the text that
  \<open>Address.account(...).toString()\<close> and \<open>Address.contract(...).toString()\<close> render;
  any other discriminator keeps its name.
\<close>

datatype ScAddress =
    ScAddressTypeAccount string
  | ScAddressTypeContract string
  | ScAddressTypeOther string

text \<open>\<open>xdr.ScVal\<close>, as far as the code looks into it: an address or something else.\<close>

datatype ScVal = ScvAddress ScAddress | ScvOther

text \<open>
  \<open>interface ChatEvent\<close>. \<open>timestamp\<close> is the \<open>Date\<close> as milliseconds since the
  epoch (\<open>getTime()\<close>); every date is a valid one, as the ledger close times are.
  \<open>addr\<close> is declared \<open>string\<close> in the interface, but
  \<open>getEvents\<close> fills it from \<open>let addr: string | undefined\<close>, so \<open>None\<close> is
  \<open>undefined\<close>. Field \<open>id\<close> is named \<open>id'\<close> here.
\<close>

record ChatEvent =
  id' :: string
  addr :: "string option"
  timestamp :: int
  txHash :: string
  msg :: string

text \<open>
  One event of the RPC answer, fields prefixed with \<open>ev_\<close>: \<open>event.type\<close>,
  \<open>event.contractId\<close> (\<open>None\<close> is \<open>undefined\<close>), \<open>event.id\<close>, \<open>event.topic\<close>,
  \<open>event.value\<close> (as the text \<open>scValToNative\<close> gives for the contract's String
  payload), \<open>event.ledgerClosedAt\<close> (as the milliseconds \<open>new Date(...)\<close> reads from
  it) and \<open>event.txHash\<close>.
\<close>

record RawEvent =
  ev_type :: string
  ev_contractId :: "string option"
  ev_id :: string
  ev_topic :: "ScVal list"
  ev_value :: string
  ev_ledgerClosedAt :: int
  ev_txHash :: string

section \<open>Array operations of the language\<close>

text \<open>\<open>Array.prototype.findIndex\<close>: the first index whose element satisfies \<open>p\<close>, or -1.\<close>

fun findIndex :: "('a \<Rightarrow> bool) \<Rightarrow> 'a list \<Rightarrow> int" where
  "findIndex p [] = -1"
| "findIndex p (x # xs) =
     (if p x then 0 else (let i = findIndex p xs in if i = -1 then -1 else i + 1))"

text \<open>
  \<open>Array.prototype.sort\<close> with a comparator: a stable sort, \<open>x\<close> placed before \<open>y\<close>
  when \<open>cmp x y \<le> 0\<close>. Insertion from the right keeps equal elements in their order.
\<close>

fun insort_cmp :: "('a \<Rightarrow> 'a \<Rightarrow> int) \<Rightarrow> 'a \<Rightarrow> 'a list \<Rightarrow> 'a list" where
  "insort_cmp cmp x [] = [x]"
| "insort_cmp cmp x (y # ys) =
     (if cmp x y \<le> 0 then x # y # ys else y # insort_cmp cmp x ys)"

definition Array_sort :: "('a \<Rightarrow> 'a \<Rightarrow> int) \<Rightarrow> 'a list \<Rightarrow> 'a list" where
  "Array_sort cmp xs = foldr (insort_cmp cmp) xs []"

text \<open>The comparator of both call sites: \<open>(a, b) => a.timestamp.getTime() - b.timestamp.getTime()\<close>.\<close>

definition by_timestamp :: "ChatEvent \<Rightarrow> ChatEvent \<Rightarrow> int" where
  "by_timestamp a b = timestamp a - timestamp b"

section \<open>getEvents (utils/rpc.ts)\<close>

text \<open>\<open>limit: number | string\<close>.\<close>

datatype limit = Num int | Str string

text \<open>The parameters of \<open>rpc.getEvents\<close> that vary (the filter is a constant).\<close>

record request =
  startLedger :: "int option"
  req_limit :: int
  cursor :: "string option"

definition getEvents_request :: "limit \<Rightarrow> request" where
  "getEvents_request lim =
     \<lparr> startLedger = (case lim of Num n \<Rightarrow> Some n | Str _ \<Rightarrow> None),
       req_limit = 10000,
       cursor = (case lim of Str c \<Rightarrow> Some c | Num _ \<Rightarrow> None) \<rparr>"

text \<open>\<open>event.topic[0].address()\<close>: throws when there is no topic or it is not an address.\<close>

definition topic0_address :: "ScVal list \<Rightarrow> error + ScAddress" where
  "topic0_address topic =
     (case topic of
        [] \<Rightarrow> Inl MalformedEvent
      | ScvAddress a # _ \<Rightarrow> Inr a
      | ScvOther # _ \<Rightarrow> Inl MalformedEvent)"

text \<open>The \<open>switch\<close> on the discriminator: two cases, no default, \<open>addr\<close> starts undefined.\<close>

fun switch_addr :: "ScAddress \<Rightarrow> string option" where
  "switch_addr (ScAddressTypeAccount a) = Some a"
| "switch_addr (ScAddressTypeContract c) = Some c"
| "switch_addr (ScAddressTypeOther n) = None"

text \<open>\<open>!event.contractId\<close>: true of \<open>undefined\<close> and of the empty string.\<close>

definition falsy :: "string option \<Rightarrow> bool" where
  "falsy v = (case v of None \<Rightarrow> True | Some str \<Rightarrow> str = [])"

text \<open>
  The body of \<open>events.forEach\<close> on the array \<open>msgs\<close>: the array after the call, or the
  exception that left it as it was.
\<close>

definition process_event :: "ChatEvent list \<Rightarrow> RawEvent \<Rightarrow> error + ChatEvent list" where
  "process_event msgs event =
     (if ev_type event \<noteq> ''contract'' \<or> falsy (ev_contractId event) then Inr msgs
      else if findIndex (\<lambda>m. id' m = ev_id event) msgs = -1 then
        (case topic0_address (ev_topic event) of
           Inl e \<Rightarrow> Inl e
         | Inr topic0 \<Rightarrow>
             Inr (msgs @ [\<lparr> id' = ev_id event,
                            addr = switch_addr topic0,
                            timestamp = ev_ledgerClosedAt event,
                            txHash = ev_txHash event,
                            msg = ev_value event \<rparr>]))
      else Inr msgs)"

text \<open>
  \<open>events.forEach\<close>: an exception ends the loop; what was pushed before it stays in
  the array. The result is the exception, if any, and the array.
\<close>

fun forEach_events :: "RawEvent list \<Rightarrow> ChatEvent list \<Rightarrow> error option \<times> ChatEvent list" where
  "forEach_events [] msgs = (None, msgs)"
| "forEach_events (event # events) msgs =
     (case process_event msgs event of
        Inl e \<Rightarrow> (Some e, msgs)
      | Inr msgs' \<Rightarrow> forEach_events events msgs')"

text \<open>
  \<open>getEvents\<close> once \<open>rpc.getEvents\<close> has answered: \<open>Inl\<close> is the rejected promise.
  The loop, which the document lists on its own, stands inside the \<open>try\<close> where the
  listing of the function says \<open>// Process events...\<close>. The \<open>catch\<close> logs and falls
  through to \<open>return msgs\<close>.
\<close>

definition getEvents_then :: "ChatEvent list \<Rightarrow> error + RawEvent list \<Rightarrow> ChatEvent list" where
  "getEvents_then msgs response =
     (case response of
        Inl e \<Rightarrow> msgs
      | Inr events \<Rightarrow> snd (forEach_events events msgs))"

text \<open>The whole call, the RPC server being a function from the request to its answer.\<close>

definition getEvents ::
  "(request \<Rightarrow> error + RawEvent list) \<Rightarrow> ChatEvent list \<Rightarrow> limit \<Rightarrow> bool \<Rightarrow> ChatEvent list" where
  "getEvents rpc_getEvents msgs lim found = getEvents_then msgs (rpc_getEvents (getEvents_request lim))"

text \<open>
  What \<open>callGetEvents\<close> makes of the list: \<open>getEvents\<close> on the current messages, then
  the sort. This is the reconcile of current and incoming.
\<close>

definition reconcile :: "ChatEvent list \<Rightarrow> error + RawEvent list \<Rightarrow> ChatEvent list" where
  "reconcile msgs response = Array_sort by_timestamp (getEvents_then msgs response)"

section \<open>getMessages (utils/zettablocks.ts)\<close>

text \<open>
  The document shows \<open>getMessages\<close> with the statements after the \<open>fetch\<close> elided
  (\<open>// Process response...\<close>). What the \<open>try\<close> block did is the argument: it threw
  (the request failed, or the answer was malformed), it returned a list, or it fell
  through to the last \<open>return []\<close>.
\<close>

datatype 'a outcome = Threw error | Returned 'a | FellThrough

definition getMessages :: "ChatEvent list outcome \<Rightarrow> ChatEvent list" where
  "getMessages tried =
     (case tried of
        Threw e \<Rightarrow> []
      | Returned ms \<Rightarrow> ms
      | FellThrough \<Rightarrow> [])"

section \<open>The Welcome component\<close>

text \<open>
  Arrays are objects: \<open>push\<close> and \<open>sort\<close> change the array they are called on, and
  \<open>msgs\<close> holds a reference. The heap maps the identity of an array to its elements.
\<close>

type_synonym ref = nat
type_synonym handle = nat

text \<open>
  An \<open>async\<close> function that is waiting at an \<open>await\<close>: \<open>onMount\<close> waits for
  \<open>getMessages()\<close>, then for \<open>rpc.getLatestLedger()\<close>, then for
  \<open>getEvents(msgs, ...)\<close>; the timer callback waits for \<open>rpc.getLatestLedger()\<close>, then
  for \<open>getEvents(msgs, ...)\<close>. A wait for \<open>getEvents\<close> holds the array it was called
  with and the request it sent.
\<close>

datatype pending =
    MountMessages
  | MountLedger
  | MountEvents ref request
  | TickLedger
  | TickEvents ref request

text \<open>
  The variables of the component (\<open>msgs\<close>, \<open>interval\<close>, \<open>loading\<close>, \<open>error\<close>), and
  what the runtime holds for it: the arrays, the next unused array identity and timer
  handle, whether \<open>onMount\<close> has been called, the interval timers that are set, and the
  functions that are waiting.
\<close>

record state =
  heap :: "ref \<Rightarrow> ChatEvent list"
  fresh :: ref
  msgs :: ref
  interval :: "handle option"
  loading :: bool
  error :: "string option"
  mounted :: bool
  next_timer :: handle
  timers :: "handle set"
  pending :: "pending list"

text \<open>\<open>let msgs: ChatEvent[] = []\<close>, \<open>let loading = true\<close>, \<open>let error = null\<close>.\<close>

definition init :: state where
  "init = \<lparr> heap = (\<lambda>r. []), fresh = 1, msgs = 0, interval = None, loading = True,
            error = None, mounted = False, next_timer = 1, timers = {}, pending = [] \<rparr>"

text \<open>What the template shows: the array \<open>msgs\<close> refers to.\<close>

definition published :: "state \<Rightarrow> ChatEvent list" where
  "published s = heap s (msgs s)"

text \<open>
  \<open>callGetMessages\<close> once \<open>getMessages()\<close> has resolved: \<open>msgs\<close> becomes the new array
  that \<open>getMessages\<close> returned, which is then sorted in place.
\<close>

definition callGetMessages :: "ChatEvent list outcome \<Rightarrow> state \<Rightarrow> state" where
  "callGetMessages tried s =
     (let r = fresh s;
          h1 = (heap s)(r := getMessages tried);
          h2 = h1(r := Array_sort by_timestamp (h1 r))
      in s\<lparr> heap := h2, fresh := Suc r, msgs := r \<rparr>)"

text \<open>\<open>sequence - 17_280\<close>, a number: the request of \<open>callGetEvents(sequence - 17_280)\<close>.\<close>

definition tick_request :: "int \<Rightarrow> request" where
  "tick_request sequence = getEvents_request (Num (sequence - 17280))"

text \<open>
  \<open>callGetEvents\<close> once \<open>rpc.getEvents\<close> has answered, \<open>r\<close> being the array that
  \<open>getEvents\<close> was called with: \<open>getEvents\<close> pushes into \<open>r\<close> and returns it, \<open>msgs\<close>
  is assigned \<open>r\<close>, and \<open>r\<close> is sorted in place.
\<close>

definition callGetEvents_then :: "ref \<Rightarrow> error + RawEvent list \<Rightarrow> state \<Rightarrow> state" where
  "callGetEvents_then r response s =
     (let h1 = (heap s)(r := getEvents_then (heap s r) response);
          h2 = h1(r := Array_sort by_timestamp (h1 r))
      in s\<lparr> heap := h2, msgs := r \<rparr>)"

text \<open>
  \<open>onDestroy\<close>: \<open>if (interval) clearInterval(interval)\<close>. \<open>interval\<close> is a
  \<open>NodeJS.Timeout\<close>, so it is truthy once it is assigned.
\<close>

definition onDestroy :: "state \<Rightarrow> state" where
  "onDestroy s =
     (case interval s of
        None \<Rightarrow> s
      | Some h \<Rightarrow> s\<lparr> timers := timers s - {h} \<rparr>)"

subsection \<open>The steps of the component\<close>

datatype response =
    Messages "ChatEvent list outcome"
  | Ledger "error + int"
  | Events "error + RawEvent list"

datatype label =
    OnMount
  | Resume nat response
  | TimerFire
  | OnDestroy

definition await :: "pending \<Rightarrow> state \<Rightarrow> state" where
  "await p s = s\<lparr> pending := pending s @ [p] \<rparr>"

definition remove_nth :: "nat \<Rightarrow> 'a list \<Rightarrow> 'a list" where
  "remove_nth i xs = take i xs @ drop (Suc i) xs"

text \<open>
  A waiting function receives its answer and runs to its next \<open>await\<close> or to its end.
  In \<open>onMount\<close> only \<open>rpc.getLatestLedger()\<close> can throw (\<open>getMessages\<close> and
  \<open>getEvents\<close> catch their own errors): the \<open>catch\<close> sets \<open>error\<close>, the \<open>finally\<close>
  clears \<open>loading\<close>. After the first \<open>callGetEvents\<close>, \<open>onMount\<close> sets the interval.
  The timer callback logs an error of \<open>rpc.getLatestLedger()\<close> and ends.
\<close>

fun resume :: "pending \<Rightarrow> response \<Rightarrow> state \<Rightarrow> state option" where
  "resume MountMessages (Messages tried) s = Some (await MountLedger (callGetMessages tried s))"
| "resume MountLedger (Ledger (Inl e)) s =
     Some (s\<lparr> error := Some ''Failed to load messages. Please try again later.'',
              loading := False \<rparr>)"
| "resume MountLedger (Ledger (Inr sequence)) s =
     Some (await (MountEvents (msgs s) (tick_request sequence)) s)"
| "resume (MountEvents r req) (Events response) s =
     (let s1 = callGetEvents_then r response s;
          h = next_timer s1
      in Some (s1\<lparr> interval := Some h, next_timer := Suc h,
                   timers := insert h (timers s1), loading := False \<rparr>))"
| "resume TickLedger (Ledger (Inl e)) s = Some s"
| "resume TickLedger (Ledger (Inr sequence)) s =
     Some (await (TickEvents (msgs s) (tick_request sequence)) s)"
| "resume (TickEvents r req) (Events response) s = Some (callGetEvents_then r response s)"
| "resume _ _ s = None"

text \<open>
  One step: \<open>onMount\<close> is called (once), a waiting function is resumed, the interval
  timer fires (only while it is set) and starts the callback, or \<open>onDestroy\<close> is
  called. \<open>None\<close>: the step cannot happen in this state.
\<close>

fun step :: "label \<Rightarrow> state \<Rightarrow> state option" where
  "step OnMount s =
     (if mounted s then None
      else Some (await MountMessages (s\<lparr> loading := True, mounted := True \<rparr>)))"
| "step (Resume i answer) s =
     (if i < length (pending s)
      then resume (pending s ! i) answer (s\<lparr> pending := remove_nth i (pending s) \<rparr>)
      else None)"
| "step TimerFire s =
     (if timers s = {} then None else Some (await TickLedger s))"
| "step OnDestroy s = (if mounted s then Some (onDestroy s) else None)"

fun run :: "label list \<Rightarrow> state \<Rightarrow> state option" where
  "run [] s = Some s"
| "run (l # ls) s = (case step l s of None \<Rightarrow> None | Some s' \<Rightarrow> run ls s')"

section \<open>Invariants of the component\<close>

text \<open>Which waiting functions belong to \<open>onMount\<close>, and the array a wait holds.\<close>

fun is_mount :: "pending \<Rightarrow> bool" where
  "is_mount MountMessages = True"
| "is_mount MountLedger = True"
| "is_mount (MountEvents r req) = True"
| "is_mount TickLedger = False"
| "is_mount (TickEvents r req) = False"

fun array_of :: "pending \<Rightarrow> ref option" where
  "array_of (MountEvents r req) = Some r"
| "array_of (TickEvents r req) = Some r"
| "array_of _ = None"

text \<open>
  Every array is sorted by timestamp and \<open>msgs\<close> refers to an array that exists; a
  wait for \<open>getEvents\<close> holds the array \<open>msgs\<close> refers to; and the interval is set
  only after \<open>onMount\<close> has finished, at most one function of \<open>onMount\<close> waiting
  before that and only timer callbacks after.
\<close>

definition heap_sorted :: "state \<Rightarrow> bool" where
  "heap_sorted s \<longleftrightarrow> msgs s < fresh s \<and> (\<forall>r. sorted (map timestamp (heap s r)))"

definition arrays_current :: "state \<Rightarrow> bool" where
  "arrays_current s \<longleftrightarrow> (\<forall>p \<in> set (pending s). \<forall>r. array_of p = Some r \<longrightarrow> r = msgs s)"

definition lifecycle :: "state \<Rightarrow> bool" where
  "lifecycle s \<longleftrightarrow>
     (case interval s of
        None \<Rightarrow> timers s = {} \<and> length (pending s) \<le> 1 \<and> (pending s \<noteq> [] \<longrightarrow> mounted s) \<and>
                 (\<forall>p \<in> set (pending s). is_mount p)
      | Some h \<Rightarrow> mounted s \<and> timers s \<subseteq> {h} \<and> (\<forall>p \<in> set (pending s). \<not> is_mount p))"

definition Inv :: "state \<Rightarrow> bool" where
  "Inv s \<longleftrightarrow> heap_sorted s \<and> arrays_current s \<and> lifecycle s"

text \<open>
  The request a wait for \<open>getEvents\<close> has sent; every such request has a start
  ledger, the limit 10000 and no cursor.
\<close>

fun request_of :: "pending \<Rightarrow> request option" where
  "request_of (MountEvents r req) = Some req"
| "request_of (TickEvents r req) = Some req"
| "request_of _ = None"

definition windowed :: "state \<Rightarrow> bool" where
  "windowed s \<longleftrightarrow>
     (\<forall>p \<in> set (pending s).
        case request_of p of
          None \<Rightarrow> True
        | Some req \<Rightarrow> cursor req = None \<and> startLedger req \<noteq> None \<and> req_limit req = 10000)"

text \<open>After \<open>onDestroy\<close> in a component whose interval was set.\<close>

definition stopped :: "state \<Rightarrow> bool" where
  "stopped s \<longleftrightarrow> timers s = {} \<and> mounted s \<and> (\<forall>p \<in> set (pending s). \<not> is_mount p)"

section \<open>truncate (utils/base.ts)\<close>

text \<open>
  \<open>String.prototype.slice\<close>: a negative index counts from the end, both indices are
  clamped to the string, and an absent \<open>end\<close> is the length. A \<open>string\<close> here is the
  sequence of code units that \<open>slice\<close> counts.
\<close>

definition slice_index :: "int \<Rightarrow> int \<Rightarrow> int" where
  "slice_index len i = (if i < 0 then max (len + i) 0 else min i len)"

definition slice :: "string \<Rightarrow> int \<Rightarrow> int option \<Rightarrow> string" where
  "slice str start end =
     (let len = int (length str);
          from = slice_index len start;
          to = (case end of None \<Rightarrow> len | Some e \<Rightarrow> slice_index len e)
      in take (nat (to - from)) (drop (nat from) str))"

text \<open>
  \<open>`${str.slice(0, chars)}...${str.slice(-chars)}`\<close>. Every call of the
  repository passes \<open>chars\<close> (the default is 4).
\<close>

definition truncate :: "string \<Rightarrow> int \<Rightarrow> string" where
  "truncate str chars = slice str 0 (Some chars) @ ''...'' @ slice str (- chars) None"


section \<open>Well-formed events and sample data\<close>

text \<open>
  A raw event that stands for a record: a contract event of a known contract whose
  first topic is an address, so that the loop body neither skips it for its kind nor
  throws on it.
\<close>

definition record_like :: "RawEvent \<Rightarrow> bool" where
  "record_like event \<longleftrightarrow>
     ev_type event = ''contract'' \<and> \<not> falsy (ev_contractId event) \<and>
     (case topic0_address (ev_topic event) of Inl e \<Rightarrow> False | Inr a \<Rightarrow> True)"

text \<open>Sample messages and raw events for the concrete instances below.\<close>

definition example_msg :: "string \<Rightarrow> int \<Rightarrow> ChatEvent" where
  "example_msg i t =
     \<lparr> id' = i, addr = Some ''GABC'', timestamp = t, txHash = ''tx'', msg = ''hello'' \<rparr>"

definition example_event :: "string \<Rightarrow> int \<Rightarrow> ScAddress \<Rightarrow> RawEvent" where
  "example_event i t a =
     \<lparr> ev_type = ''contract'', ev_contractId = Some ''CCHAT'', ev_id = i,
       ev_topic = [ScvAddress a], ev_value = ''hello'', ev_ledgerClosedAt = t,
       ev_txHash = ''tx'' \<rparr>"

text \<open>The array with a given identity.\<close>

definition array_at :: "ref \<Rightarrow> state \<Rightarrow> ChatEvent list" where
  "array_at r s = heap s r"

definition example_mount :: "label list" where
  "example_mount =
     [OnMount, Resume 0 (Messages FellThrough), Resume 0 (Ledger (Inr 20000)),
      Resume 0 (Events (Inr [example_event ''a'' 5 (ScAddressTypeAccount ''GABC'')]))]"

definition example_tick :: "label list" where
  "example_tick =
     [TimerFire, Resume 0 (Ledger (Inr 20000)),
      Resume 0 (Events (Inr [example_event ''b'' 2 (ScAddressTypeAccount ''GABC'')]))]"

text \<open>
  The states of the sample run: after \<open>example_mount\<close>; then with a timer callback
  waiting for \<open>getEvents\<close>; and after \<open>example_mount\<close> and \<open>example_tick\<close>.
\<close>

definition example_running :: state where
  "example_running =
     \<lparr> heap = (\<lambda>r. [])(1 := [example_msg ''a'' 5]), fresh = 2, msgs = 1,
       interval = Some 1, loading = False, error = None, mounted = True,
       next_timer = 2, timers = {1}, pending = [] \<rparr>"

definition example_waiting :: state where
  "example_waiting =
     example_running\<lparr> pending :=
       [TickEvents 1 \<lparr> startLedger = Some 2720, req_limit = 10000, cursor = None \<rparr>] \<rparr>"

definition example_after_tick :: state where
  "example_after_tick =
     \<lparr> heap = (\<lambda>r. [])(1 := [example_msg ''b'' 2, example_msg ''a'' 5]), fresh = 2, msgs = 1,
       interval = Some 1, loading = False, error = None, mounted = True,
       next_timer = 2, timers = {1}, pending = [] \<rparr>"

section \<open>Properties of the array operations\<close>

lemma Array_sort_by_timestamp: "Array_sort by_timestamp xs = sort_key timestamp xs"
proof -
  have "insort_cmp by_timestamp x ys = insort_key timestamp x ys" for x ys
    by (induction ys) (simp_all add: by_timestamp_def)
  then have "insort_cmp by_timestamp = insort_key timestamp"
    by (intro ext)
  then show ?thesis
    by (simp add: Array_sort_def sort_key_def)
qed

lemma findIndex_ge: "- 1 \<le> findIndex p xs"
  by (induction xs) (simp_all add: Let_def)

lemma findIndex_none: "findIndex p xs = -1 \<longleftrightarrow> (\<forall>x \<in> set xs. \<not> p x)"
proof (induction xs)
  case Nil
  show ?case by simp
next
  case (Cons x xs)
  have "findIndex p xs + 1 \<noteq> -1"
    using findIndex_ge [of p xs] by arith
  with Cons show ?case
    by (simp add: Let_def)
qed

section \<open>Properties of the event loop\<close>

lemma findIndex_id: "findIndex (\<lambda>m. id' m = i) ms = -1 \<longleftrightarrow> i \<notin> set (map id' ms)"
  by (auto simp: findIndex_none)

lemma process_event_Inr:
  assumes "process_event ms e = Inr ms'"
  shows "ms' = ms \<or> (\<exists>m. ms' = ms @ [m] \<and> id' m = ev_id e \<and> ev_id e \<notin> set (map id' ms))"
  using assms
  by (auto simp: process_event_def findIndex_id simp del: set_map split: sum.splits if_splits)

lemma forEach_events_distinct:
  "distinct (map id' ms) \<Longrightarrow> distinct (map id' (snd (forEach_events es ms)))"
proof (induction es arbitrary: ms)
  case Nil
  then show ?case by simp
next
  case (Cons e es)
  show ?case
  proof (cases "process_event ms e")
    case (Inl x)
    with Cons.prems show ?thesis by simp
  next
    case (Inr ms')
    from process_event_Inr [OF Inr] Cons.prems have "distinct (map id' ms')"
      by auto
    with Cons.IH [of ms'] Inr show ?thesis by simp
  qed
qed

lemma forEach_events_ids_mono:
  "set (map id' ms) \<subseteq> set (map id' (snd (forEach_events es ms)))"
proof (induction es arbitrary: ms)
  case Nil
  then show ?case by simp
next
  case (Cons e es)
  show ?case
  proof (cases "process_event ms e")
    case (Inl x)
    then show ?thesis by simp
  next
    case (Inr ms')
    from process_event_Inr [OF Inr] have "set (map id' ms) \<subseteq> set (map id' ms')"
      by auto
    with Cons.IH [of ms'] Inr show ?thesis by auto
  qed
qed

lemma process_event_record_like:
  assumes "record_like e"
  shows "\<exists>ms'. process_event ms e = Inr ms' \<and> set (map id' ms') = insert (ev_id e) (set (map id' ms))"
  using assms
  by (auto simp: record_like_def process_event_def findIndex_id simp del: set_map split: sum.splits)

lemma forEach_events_ids:
  "\<forall>e \<in> set es. record_like e \<Longrightarrow>
   set (map id' (snd (forEach_events es ms))) = set (map id' ms) \<union> set (map ev_id es)"
proof (induction es arbitrary: ms)
  case Nil
  then show ?case by simp
next
  case (Cons e es)
  then have "record_like e" by simp
  from process_event_record_like [OF this, of ms] obtain ms' where
    ms': "process_event ms e = Inr ms'" "set (map id' ms') = insert (ev_id e) (set (map id' ms))"
    by blast
  from Cons have "set (map id' (snd (forEach_events es ms'))) = set (map id' ms') \<union> set (map ev_id es)"
    by simp
  with ms' show ?case by auto
qed

lemma process_event_known:
  "ev_id e \<in> set (map id' ms) \<Longrightarrow> process_event ms e = Inr ms"
  using findIndex_id [of "ev_id e" ms] by (simp add: process_event_def del: set_map)

lemma forEach_events_known:
  "set (map ev_id es) \<subseteq> set (map id' ms) \<Longrightarrow> forEach_events es ms = (None, ms)"
  by (induction es) (simp_all add: process_event_known del: set_map)

lemma process_event_same_ids:
  assumes "set (map id' n) = set (map id' ms)"
  shows "(case process_event ms e of
            Inl x \<Rightarrow> process_event n e = Inl x
          | Inr ms' \<Rightarrow> ms' = ms \<and> process_event n e = Inr n
                      \<or> ms' \<noteq> ms \<and> ev_id e \<in> set (map id' ms'))"
  using assms findIndex_id [of "ev_id e" ms] findIndex_id [of "ev_id e" n]
  by (auto simp: process_event_def simp del: set_map split: sum.splits)

lemma forEach_events_again:
  "set (map id' n) = set (map id' (snd (forEach_events es ms))) \<Longrightarrow>
   snd (forEach_events es n) = n"
proof (induction es arbitrary: ms)
  case Nil
  show ?case by simp
next
  case (Cons e es)
  show ?case
  proof (cases "process_event ms e")
    case (Inl x)
    with Cons.prems have "set (map id' n) = set (map id' ms)" by simp
    from process_event_same_ids [OF this, of e] Inl show ?thesis by simp
  next
    case (Inr ms')
    with Cons.prems have n: "set (map id' n) = set (map id' (snd (forEach_events es ms')))"
      by simp
    then have again: "snd (forEach_events es n) = n" by (rule Cons.IH)
    show ?thesis
    proof (cases "ms' = ms")
      case True
      have "ev_type e \<noteq> ''contract'' \<or> falsy (ev_contractId e) \<or> ev_id e \<in> set (map id' ms)"
        using Inr True findIndex_id [of "ev_id e" ms]
        by (auto simp: process_event_def simp del: set_map split: sum.splits if_splits)
      moreover have "set (map id' ms) \<subseteq> set (map id' n)"
        using forEach_events_ids_mono [of ms' es] n True by simp
      ultimately have "process_event n e = Inr n"
        using findIndex_id [of "ev_id e" n]
        by (auto simp: process_event_def simp del: set_map)
      with again show ?thesis by simp
    next
      case False
      with process_event_Inr [OF Inr] have "ev_id e \<in> set (map id' ms')" by auto
      with forEach_events_ids_mono [of ms' es] n have "ev_id e \<in> set (map id' n)" by auto
      then have "process_event n e = Inr n" by (rule process_event_known)
      with again show ?thesis by simp
    qed
  qed
qed

lemma getEvents_then_again:
  "set (map id' n) = set (map id' (getEvents_then ms r)) \<Longrightarrow> getEvents_then n r = n"
  by (cases r) (auto simp: getEvents_then_def dest: forEach_events_again simp del: set_map)

lemma reconcile_again: "reconcile (reconcile A r) r = reconcile A r"
proof -
  have "getEvents_then (reconcile A r) r = reconcile A r"
    by (rule getEvents_then_again [of _ A]) (simp add: reconcile_def Array_sort_by_timestamp)
  then show ?thesis
    by (simp add: reconcile_def [of "reconcile A r"])
      (simp add: reconcile_def Array_sort_by_timestamp sort_key_id_if_sorted)
qed

text \<open>The loop only appends: every record of the list is still in the reconciled list.\<close>

lemma forEach_events_appends: "\<exists>new. snd (forEach_events es ms) = ms @ new"
proof (induction es arbitrary: ms)
  case Nil
  show ?case by simp
next
  case (Cons e es)
  show ?case
  proof (cases "process_event ms e")
    case (Inl x)
    then show ?thesis by simp
  next
    case (Inr ms')
    from process_event_Inr [OF Inr] obtain mid where "ms' = ms @ mid" by auto
    moreover from Cons.IH [of ms'] obtain new where "snd (forEach_events es ms') = ms' @ new" ..
    ultimately show ?thesis using Inr by simp
  qed
qed

lemma reconcile_keeps_records: "mset A \<subseteq># mset (reconcile A r)"
proof (cases r)
  case (Inl e)
  then show ?thesis
    by (simp add: reconcile_def getEvents_then_def Array_sort_by_timestamp)
next
  case (Inr es)
  from forEach_events_appends [of es A] obtain new where "snd (forEach_events es A) = A @ new" ..
  with Inr show ?thesis
    by (simp add: reconcile_def getEvents_then_def Array_sort_by_timestamp)
qed

section \<open>Evaluation and the published list\<close>

lemmas example_defs = example_msg_def example_event_def

lemmas example_states = example_running_def example_waiting_def

lemmas step_defs = await_def remove_nth_def callGetMessages_def callGetEvents_then_def
  onDestroy_def getMessages_def tick_request_def getEvents_request_def init_def Let_def
  published_def array_at_def example_mount_def example_tick_def

lemmas eval_defs = reconcile_def getEvents_then_def process_event_def topic0_address_def
  Array_sort_def by_timestamp_def record_like_def falsy_def

lemma published_callGetEvents_then:
  "published (callGetEvents_then r response s) = reconcile (heap s r) response"
  by (simp add: published_def callGetEvents_then_def reconcile_def Let_def)

lemma published_callGetMessages:
  "published (callGetMessages tried s) = Array_sort by_timestamp (getMessages tried)"
  by (simp add: published_def callGetMessages_def Let_def)

section \<open>Properties of the component\<close>

lemma set_remove_nth: "set (remove_nth i xs) \<subseteq> set xs"
  by (auto simp: remove_nth_def dest: in_set_takeD in_set_dropD)

lemma remove_nth_single: "length xs \<le> 1 \<Longrightarrow> i < length xs \<Longrightarrow> remove_nth i xs = []"
  by (cases xs) (auto simp: remove_nth_def)

lemma sorted_Array_sort: "sorted (map timestamp (Array_sort by_timestamp xs))"
  by (simp add: Array_sort_by_timestamp)

lemma Inv_init: "Inv init"
  by (simp add: Inv_def heap_sorted_def arrays_current_def lifecycle_def init_def)

lemma heap_sorted_callGetEvents_then:
  "heap_sorted s \<Longrightarrow> r = msgs s \<Longrightarrow> heap_sorted (callGetEvents_then r response s)"
  by (simp add: heap_sorted_def callGetEvents_then_def Let_def sorted_Array_sort)

lemma heap_sorted_callGetMessages:
  "heap_sorted s \<Longrightarrow> heap_sorted (callGetMessages tried s)"
  by (simp add: heap_sorted_def callGetMessages_def Let_def sorted_Array_sort)

lemma callGetEvents_then_fields [simp]:
  "msgs (callGetEvents_then r response s) = r"
  "interval (callGetEvents_then r response s) = interval s"
  "timers (callGetEvents_then r response s) = timers s"
  "pending (callGetEvents_then r response s) = pending s"
  "mounted (callGetEvents_then r response s) = mounted s"
  "next_timer (callGetEvents_then r response s) = next_timer s"
  "fresh (callGetEvents_then r response s) = fresh s"
  by (simp_all add: callGetEvents_then_def Let_def)

lemma callGetMessages_fields [simp]:
  "msgs (callGetMessages tried s) = fresh s"
  "interval (callGetMessages tried s) = interval s"
  "timers (callGetMessages tried s) = timers s"
  "pending (callGetMessages tried s) = pending s"
  "mounted (callGetMessages tried s) = mounted s"
  "fresh (callGetMessages tried s) = Suc (fresh s)"
  by (simp_all add: callGetMessages_def Let_def)

lemma resume_Inv:
  assumes inv: "Inv s" and i: "i < length (pending s)"
    and res: "resume (pending s ! i) answer (s\<lparr> pending := remove_nth i (pending s) \<rparr>) = Some t"
  shows "Inv t"
proof -
  let ?p = "pending s ! i"
  let ?s = "s\<lparr> pending := remove_nth i (pending s) \<rparr>"
  have p: "?p \<in> set (pending s)" using i by simp
  have sub: "set (pending ?s) \<subseteq> set (pending s)" by (simp add: set_remove_nth)
  have hs: "heap_sorted ?s" using inv by (simp add: Inv_def heap_sorted_def)
  have ac: "arrays_current ?s" using inv sub by (auto simp: Inv_def arrays_current_def)
  show ?thesis
  proof (cases "is_mount ?p")
    case True
    with inv p have none: "interval s = None"
      by (cases "interval s") (auto simp: Inv_def lifecycle_def)
    with inv have len: "length (pending s) \<le> 1" and tm: "timers s = {}" and mo: "mounted s"
      using p by (auto simp: Inv_def lifecycle_def)
    then have empty: "pending ?s = []" using i by (simp add: remove_nth_single)
    from True show ?thesis
    proof (cases ?p)
      case MountMessages
      with res obtain tried where t: "t = await MountLedger (callGetMessages tried ?s)"
        by (cases answer) auto
      show ?thesis
        using hs heap_sorted_callGetMessages [of ?s tried] empty none tm mo
        by (simp add: t Inv_def await_def heap_sorted_def arrays_current_def lifecycle_def)
    next
      case MountLedger
      with res obtain a where ans: "answer = Ledger a" by (cases answer) auto
      show ?thesis
      proof (cases a)
        case (Inl e)
        with res MountLedger ans hs empty none tm mo show ?thesis
          by (auto simp: Inv_def heap_sorted_def arrays_current_def lifecycle_def)
      next
        case (Inr sequence)
        with res MountLedger ans hs empty none tm mo show ?thesis
          by (auto simp: Inv_def await_def heap_sorted_def arrays_current_def lifecycle_def)
      qed
    next
      case (MountEvents r req)
      with res obtain response where ans: "answer = Events response" by (cases answer) auto
      from res MountEvents ans
      have t: "t = (callGetEvents_then r response ?s)\<lparr> interval := Some (next_timer s),
                 next_timer := Suc (next_timer s),
                 timers := insert (next_timer s) (timers s), loading := False \<rparr>"
        by (auto simp: Let_def)
      from inv p MountEvents have r: "r = msgs ?s" by (auto simp: Inv_def arrays_current_def)
      show ?thesis
        using heap_sorted_callGetEvents_then [OF hs r, of response] empty tm mo
        by (simp add: t Inv_def heap_sorted_def arrays_current_def lifecycle_def)
    qed simp_all
  next
    case False
    with inv p obtain h where h: "interval s = Some h"
      by (cases "interval s") (auto simp: Inv_def lifecycle_def)
    with inv have mo: "mounted s" and tm: "timers s \<subseteq> {h}"
      and nm: "\<forall>p \<in> set (pending s). \<not> is_mount p"
      by (auto simp: Inv_def lifecycle_def)
    from nm sub have nm': "\<forall>p \<in> set (pending ?s). \<not> is_mount p" by auto
    have lc: "lifecycle ?s" using h mo tm nm' by (simp add: lifecycle_def)
    from False show ?thesis
    proof (cases ?p)
      case TickLedger
      with res obtain a where ans: "answer = Ledger a" by (cases answer) auto
      show ?thesis
      proof (cases a)
        case (Inl e)
        with res TickLedger ans hs ac lc show ?thesis by (auto simp: Inv_def)
      next
        case (Inr sequence)
        with res TickLedger ans have t: "t = await (TickEvents (msgs s) (tick_request sequence)) ?s"
          by simp
        show ?thesis
          using hs ac lc h
          by (auto simp: t Inv_def await_def heap_sorted_def arrays_current_def lifecycle_def)
      qed
    next
      case (TickEvents r req)
      with res obtain response where ans: "answer = Events response" by (cases answer) auto
      from res TickEvents ans have t: "t = callGetEvents_then r response ?s" by simp
      from inv p TickEvents have r: "r = msgs ?s" by (auto simp: Inv_def arrays_current_def)
      show ?thesis
        using heap_sorted_callGetEvents_then [OF hs r, of response] ac lc h r
        by (auto simp: t Inv_def arrays_current_def lifecycle_def)
    qed simp_all
  qed
qed

lemma step_Inv:
  assumes "Inv s" and "step l s = Some t"
  shows "Inv t"
proof (cases l)
  case OnMount
  with assms have nm: "\<not> mounted s"
    and t: "t = await MountMessages (s\<lparr> loading := True, mounted := True \<rparr>)"
    by (auto split: if_splits)
  from assms(1) nm have "interval s = None" "pending s = []" "timers s = {}"
    by (cases "interval s"; auto simp: Inv_def lifecycle_def)+
  with assms(1) show ?thesis
    by (simp add: t Inv_def await_def heap_sorted_def arrays_current_def lifecycle_def)
next
  case (Resume i answer)
  with assms show ?thesis
    by (auto split: if_splits intro: resume_Inv)
next
  case TimerFire
  with assms have ne: "timers s \<noteq> {}" and t: "t = await TickLedger s"
    by (auto split: if_splits)
  from assms(1) ne obtain h where "interval s = Some h"
    by (cases "interval s") (auto simp: Inv_def lifecycle_def)
  with assms(1) show ?thesis
    by (auto simp: t Inv_def await_def heap_sorted_def arrays_current_def lifecycle_def)
next
  case OnDestroy
  with assms have t: "t = onDestroy s" by (auto split: if_splits)
  with assms(1) show ?thesis
    by (cases "interval s")
      (auto simp: t onDestroy_def Inv_def heap_sorted_def arrays_current_def lifecycle_def)
qed

lemma run_Inv: "Inv s \<Longrightarrow> run ls s = Some t \<Longrightarrow> Inv t"
proof (induction ls arbitrary: s)
  case Nil
  then show ?case by simp
next
  case (Cons l ls)
  then show ?case
    by (auto split: option.splits dest: step_Inv)
qed

lemma reachable_Inv: "run ls init = Some s \<Longrightarrow> Inv s"
  using Inv_init by (rule run_Inv)

lemma callGetEvents_then_failed:
  assumes "heap_sorted s" and "r = msgs s"
  shows "callGetEvents_then r (Inl e) s = s"
proof -
  have "Array_sort by_timestamp (heap s r) = heap s r"
    using assms(1) by (simp add: heap_sorted_def Array_sort_by_timestamp sort_key_id_if_sorted)
  then show ?thesis
    using assms(2) by (simp add: callGetEvents_then_def getEvents_then_def)
qed

lemma step_stopped:
  assumes "stopped s" and "step l s = Some t"
  shows "l \<noteq> TimerFire \<and> stopped t"
proof (cases l)
  case OnMount
  with assms show ?thesis by (simp add: stopped_def)
next
  case (Resume i answer)
  let ?s = "s\<lparr> pending := remove_nth i (pending s) \<rparr>"
  from Resume assms(2) have i: "i < length (pending s)"
    and res: "resume (pending s ! i) answer ?s = Some t"
    by (auto split: if_splits)
  from assms(1) i have nm: "\<not> is_mount (pending s ! i)" by (simp add: stopped_def)
  have st: "stopped ?s"
    using assms(1) set_remove_nth [of i "pending s"] by (auto simp: stopped_def)
  have "stopped t"
  proof (cases "pending s ! i")
    case TickLedger
    show ?thesis
    proof (cases answer)
      case (Ledger a)
      with res st TickLedger show ?thesis
        by (cases a) (auto simp: stopped_def await_def)
    qed (use res TickLedger in simp_all)
  next
    case (TickEvents r req)
    with res st show ?thesis
      by (cases answer) (auto simp: stopped_def)
  qed (use nm in simp_all)
  with Resume show ?thesis by simp
next
  case TimerFire
  with assms show ?thesis by (simp add: stopped_def)
next
  case OnDestroy
  with assms show ?thesis
    by (cases "interval s") (auto simp: stopped_def onDestroy_def split: if_splits)
qed

lemma run_stopped: "stopped s \<Longrightarrow> run ls s = Some t \<Longrightarrow> TimerFire \<notin> set ls \<and> stopped t"
proof (induction ls arbitrary: s)
  case Nil
  then show ?case by simp
next
  case (Cons l ls)
  from Cons.prems obtain s' where s': "step l s = Some s'" "run ls s' = Some t"
    by (auto split: option.splits)
  from step_stopped [OF Cons.prems(1) s'(1)] Cons.IH [of s'] s'(2) show ?case
    by auto
qed

lemma run_append: "run (ks @ ls) s = (case run ks s of None \<Rightarrow> None | Some s' \<Rightarrow> run ls s')"
  by (induction ks arbitrary: s) (auto split: option.splits)

lemma windowed_await:
  "windowed s \<Longrightarrow>
   (case request_of p of
      None \<Rightarrow> True
    | Some req \<Rightarrow> cursor req = None \<and> startLedger req \<noteq> None \<and> req_limit req = 10000) \<Longrightarrow>
   windowed (await p s)"
  by (simp add: windowed_def await_def)

lemma windowed_remove: "windowed s \<Longrightarrow> windowed (s\<lparr> pending := remove_nth i (pending s) \<rparr>)"
  using set_remove_nth [of i "pending s"] by (auto simp: windowed_def)

lemma windowed_pending: "pending t = pending s \<Longrightarrow> windowed s \<Longrightarrow> windowed t"
  by (simp add: windowed_def)

lemma resume_windowed:
  assumes "windowed s" and "resume p answer s = Some t"
  shows "windowed t"
  using assms
  by (induction p answer s rule: resume.induct)
    (auto simp: Let_def tick_request_def getEvents_request_def
      intro!: windowed_await elim: windowed_pending [rotated])

lemma step_windowed:
  assumes "windowed s" and "step l s = Some t"
  shows "windowed t"
proof (cases l)
  case OnMount
  with assms show ?thesis
    by (auto split: if_splits intro!: windowed_await elim: windowed_pending [rotated])
next
  case (Resume i answer)
  with assms show ?thesis
    by (auto split: if_splits dest: resume_windowed [OF windowed_remove])
next
  case TimerFire
  with assms show ?thesis
    by (auto split: if_splits intro!: windowed_await)
next
  case OnDestroy
  with assms show ?thesis
    by (cases "interval s") (auto simp: onDestroy_def split: if_splits elim: windowed_pending [rotated])
qed

lemma run_windowed: "windowed s \<Longrightarrow> run ls s = Some t \<Longrightarrow> windowed t"
proof (induction ls arbitrary: s)
  case Nil
  then show ?case by simp
next
  case (Cons l ls)
  then show ?case
    by (auto split: option.splits dest: step_windowed)
qed

lemma reachable_windowed: "run ls init = Some s \<Longrightarrow> windowed s"
  by (rule run_windowed [of init]) (simp_all add: windowed_def init_def)

text \<open>
  The first fetch, which \<open>onMount\<close> makes, edits the array \<open>msgs\<close> refers to in
  place, as the fetch of a timer callback does.
\<close>

lemma mount_fetch_in_place:
  assumes "run ls init = Some s" and "i < length (pending s)"
    and "pending s ! i = MountEvents r req"
  shows "\<exists>t. step (Resume i (Events response)) s = Some t \<and>
           msgs t = msgs s \<and> fresh t = fresh s \<and>
           heap t (msgs s) = reconcile (heap s (msgs s)) response \<and>
           (\<forall>r'. r' \<noteq> msgs s \<longrightarrow> heap t r' = heap s r')"
proof -
  from assms(1) have inv: "Inv s" by (rule reachable_Inv)
  from assms(2,3) have "MountEvents r req \<in> set (pending s)" by (metis nth_mem)
  with inv have r: "r = msgs s" by (auto simp: Inv_def arrays_current_def)
  with assms(2,3) show ?thesis
    by (simp add: callGetEvents_then_def reconcile_def Let_def)
qed

section \<open>The sample run\<close>

lemma run_example_mount: "run example_mount init = Some example_running"
  by (simp add: example_states step_defs eval_defs example_defs)

lemma run_example_waiting:
  "run (example_mount @ [TimerFire, Resume 0 (Ledger (Inr 20000))]) init = Some example_waiting"
  by (simp add: run_append run_example_mount)
    (simp add: example_states step_defs)

section \<open>Properties of slice\<close>

lemma slice_prefix: "0 < n \<Longrightarrow> slice s 0 (Some n) = take (nat n) s"
  by (simp add: slice_def slice_index_def Let_def min_def)

lemma slice_suffix: "0 < n \<Longrightarrow> slice s (- n) None = drop (length s - nat n) s"
proof -
  assume n: "0 < n"
  have "nat (max (int (length s) - n) 0) = length s - nat n"
    using n by arith
  moreover have "length s - (length s - nat n) \<le> nat (int (length s) - max (int (length s) - n) 0)"
    using n by arith
  ultimately show ?thesis
    using n by (simp add: slice_def slice_index_def Let_def)
qed

lemma slice_all: "slice s 0 None = s"
  by (simp add: slice_def slice_index_def Let_def)

lemma slice_none: "slice s 0 (Some 0) = []"
  by (simp add: slice_def slice_index_def Let_def)

section \<open>Reconciliation: identifiers, order, idempotence\<close>

text \<open>
  C1 (amended). When the current list \<open>A\<close> has no two records with the same id, the
  reconciled list has none either and keeps every id of \<open>A\<close>; when moreover every
  incoming event of \<open>B\<close> is a well-formed contract event, the ids of the result are
  exactly those of \<open>A\<close> and \<open>B\<close>, each once. The loop only tests an incoming event
  against the list; it never removes a duplicate that the list already has.
\<close>

theorem reconcile_distinct_ids:
  assumes "distinct (map id' A)"
  shows "distinct (map id' (reconcile A (Inr B))) \<and>
         set (map id' A) \<subseteq> set (map id' (reconcile A (Inr B))) \<and>
         ((\<forall>e \<in> set B. record_like e) \<longrightarrow>
            set (map id' (reconcile A (Inr B))) = set (map id' A) \<union> set (map ev_id B))"
proof -
  let ?M = "snd (forEach_events B A)"
  have m: "mset (reconcile A (Inr B)) = mset ?M"
    by (simp add: reconcile_def getEvents_then_def Array_sort_by_timestamp)
  then have "mset (map id' (reconcile A (Inr B))) = mset (map id' ?M)"
    by (metis mset_map)
  then have d: "distinct (map id' (reconcile A (Inr B))) = distinct (map id' ?M)"
    and s: "set (map id' (reconcile A (Inr B))) = set (map id' ?M)"
    by (metis mset_eq_imp_distinct_iff, metis mset_eq_setD)
  show ?thesis
    using d s forEach_events_distinct [OF assms, of B] forEach_events_ids_mono [of A B]
      forEach_events_ids [of B A]
    by (simp del: set_map)
qed

theorem reconcile_distinct_ids_witness:
  "distinct (map id' [example_msg ''a'' 5, example_msg ''b'' 2]) \<and>
   list_all record_like [example_event ''b'' 2 (ScAddressTypeAccount ''GABC''),
                         example_event ''c'' 1 (ScAddressTypeAccount ''GABC''),
                         example_event ''c'' 1 (ScAddressTypeAccount ''GABC'')] \<and>
   map id' (reconcile [example_msg ''a'' 5, example_msg ''b'' 2]
      (Inr [example_event ''b'' 2 (ScAddressTypeAccount ''GABC''),
            example_event ''c'' 1 (ScAddressTypeAccount ''GABC''),
            example_event ''c'' 1 (ScAddressTypeAccount ''GABC'')])) = [''c'', ''b'', ''a'']"
  using reconcile_distinct_ids [of "[example_msg ''a'' 5, example_msg ''b'' 2]"
      "[example_event ''b'' 2 (ScAddressTypeAccount ''GABC''),
        example_event ''c'' 1 (ScAddressTypeAccount ''GABC''),
        example_event ''c'' 1 (ScAddressTypeAccount ''GABC'')]"]
  by (simp add: eval_defs example_defs)

text \<open>
  With the same id twice in the current list and nothing incoming, the result still
  has it twice.
\<close>

theorem reconcile_duplicates_counterexample:
  "\<not> distinct (map id' (reconcile [example_msg ''a'' 1, example_msg ''a'' 1] (Inr [])))"
  by (simp add: eval_defs example_defs)

text \<open>
  C2. After the historical seed (\<open>callGetMessages\<close>) and after every live merge
  (\<open>callGetEvents\<close>), the published list is sorted ascending by timestamp, whatever
  the order of the two sources, and the records of any one timestamp \<open>t\<close> stand in
  the order in which they were in the list before the sort.
\<close>

theorem published_sorted_stable:
  "sorted (map timestamp (published (callGetMessages tried s))) \<and>
   filter (\<lambda>m. timestamp m = t) (published (callGetMessages tried s)) =
     filter (\<lambda>m. timestamp m = t) (getMessages tried) \<and>
   sorted (map timestamp (published (callGetEvents_then r response s))) \<and>
   filter (\<lambda>m. timestamp m = t) (published (callGetEvents_then r response s)) =
     filter (\<lambda>m. timestamp m = t) (getEvents_then (heap s r) response) \<and>
   (run ls init = Some s' \<longrightarrow> sorted (map timestamp (published s')))"
proof -
  have "sorted (map timestamp (published s'))" if "run ls init = Some s'"
    using reachable_Inv [OF that] by (simp add: Inv_def heap_sorted_def published_def)
  then show ?thesis
    by (simp add: published_callGetEvents_then published_callGetMessages reconcile_def
        Array_sort_by_timestamp sort_key_stable)
qed

theorem published_sorted_stable_witness:
  "published (callGetEvents_then 0
      (Inr [example_event ''b'' 2 (ScAddressTypeAccount ''GABC''),
            example_event ''c'' 1 (ScAddressTypeAccount ''GABC''),
            example_event ''d'' 2 (ScAddressTypeAccount ''GABC'')]) init) =
     [example_msg ''c'' 1, example_msg ''b'' 2, example_msg ''d'' 2] \<and>
   run (example_mount @ example_tick) init = Some example_after_tick \<and>
   published example_after_tick = [example_msg ''b'' 2, example_msg ''a'' 5]"
  using published_sorted_stable [of "FellThrough" init 2 0
      "Inr [example_event ''b'' 2 (ScAddressTypeAccount ''GABC''),
            example_event ''c'' 1 (ScAddressTypeAccount ''GABC''),
            example_event ''d'' 2 (ScAddressTypeAccount ''GABC'')]"
      "example_mount @ example_tick" example_after_tick]
  by (simp add: run_append run_example_mount published_callGetEvents_then)
    (simp add: example_states example_after_tick_def step_defs eval_defs example_defs)

text \<open>
  C3. Reconciling \<open>A\<close> with nothing gives \<open>A\<close> sorted by timestamp (the stable sort
  of the library); reconciling \<open>A\<close> with events that carry the ids of \<open>A\<close> itself
  gives the same; and reconciling a result again with the same answer changes nothing.
\<close>

theorem reconcile_idempotent:
  "reconcile A (Inr []) = sort_key timestamp A \<and>
   (map ev_id B = map id' A \<longrightarrow> reconcile A (Inr B) = reconcile A (Inr [])) \<and>
   reconcile (reconcile A r) r = reconcile A r"
proof (intro conjI impI)
  show "reconcile A (Inr []) = sort_key timestamp A"
    by (simp add: reconcile_def getEvents_then_def Array_sort_by_timestamp)
next
  assume "map ev_id B = map id' A"
  then have "set (map ev_id B) \<subseteq> set (map id' A)" by simp
  then have "forEach_events B A = (None, A)" by (rule forEach_events_known)
  then show "reconcile A (Inr B) = reconcile A (Inr [])"
    by (simp add: reconcile_def getEvents_then_def)
next
  show "reconcile (reconcile A r) r = reconcile A r" by (rule reconcile_again)
qed

theorem reconcile_idempotent_witness:
  "map ev_id [example_event ''a'' 5 (ScAddressTypeAccount ''GABC''),
              example_event ''b'' 2 (ScAddressTypeAccount ''GABC'')] =
     map id' [example_msg ''a'' 5, example_msg ''b'' 2] \<and>
   reconcile [example_msg ''a'' 5, example_msg ''b'' 2]
     (Inr [example_event ''a'' 5 (ScAddressTypeAccount ''GABC''),
           example_event ''b'' 2 (ScAddressTypeAccount ''GABC'')]) =
     [example_msg ''b'' 2, example_msg ''a'' 5]"
  using reconcile_idempotent [of "[example_msg ''a'' 5, example_msg ''b'' 2]"
      "[example_event ''a'' 5 (ScAddressTypeAccount ''GABC''),
        example_event ''b'' 2 (ScAddressTypeAccount ''GABC'')]" "Inr []"]
  by (simp add: eval_defs example_defs)

section \<open>Decoding the sender\<close>



section \<open>Failed fetches\<close>

text \<open>
  C5. When \<open>rpc.getEvents\<close> fails, \<open>getEvents\<close> returns the list it was given,
  whatever that list is; and in every state the component can reach, a timer callback
  whose \<open>getEvents\<close> fails leaves the published list, every array and \<open>msgs\<close> as
  they were before the answer.
\<close>

theorem live_fetch_failure_keeps_list:
  "getEvents_then existing (Inl RpcUnavailable) = existing \<and>
   (rpc_getEvents (getEvents_request lim) = Inl RpcUnavailable \<longrightarrow>
      getEvents rpc_getEvents existing lim found = existing) \<and>
   (run ls init = Some s \<and> i < length (pending s) \<and> pending s ! i = TickEvents r req \<longrightarrow>
      (\<exists>t. step (Resume i (Events (Inl RpcUnavailable))) s = Some t \<and>
           published t = published s \<and> heap t = heap s \<and> msgs t = msgs s))"
proof (intro conjI impI)
  show "getEvents_then existing (Inl RpcUnavailable) = existing"
    by (simp add: getEvents_then_def)
next
  assume "rpc_getEvents (getEvents_request lim) = Inl RpcUnavailable"
  then show "getEvents rpc_getEvents existing lim found = existing"
    by (simp add: getEvents_def getEvents_then_def)
next
  assume a: "run ls init = Some s \<and> i < length (pending s) \<and> pending s ! i = TickEvents r req"
  let ?s = "s\<lparr> pending := remove_nth i (pending s) \<rparr>"
  from a have inv: "Inv s" using reachable_Inv [of ls s] by simp
  from a have "TickEvents r req \<in> set (pending s)" by (metis nth_mem)
  with inv have r: "r = msgs ?s" by (auto simp: Inv_def arrays_current_def)
  from inv have "heap_sorted ?s" by (simp add: Inv_def heap_sorted_def)
  then have "callGetEvents_then r (Inl RpcUnavailable) ?s = ?s"
    using r by (rule callGetEvents_then_failed)
  with a show "\<exists>t. step (Resume i (Events (Inl RpcUnavailable))) s = Some t \<and>
      published t = published s \<and> heap t = heap s \<and> msgs t = msgs s"
    by (simp add: published_def)
qed

theorem live_fetch_failure_keeps_list_witness:
  "getEvents (\<lambda>req. Inl RpcUnavailable) [example_msg ''a'' 5] (Num 2720) False =
     [example_msg ''a'' 5] \<and>
   run (example_mount @ [TimerFire, Resume 0 (Ledger (Inr 20000))]) init = Some example_waiting \<and>
   0 < length (pending example_waiting) \<and>
   pending example_waiting ! 0 =
     TickEvents 1 \<lparr> startLedger = Some 2720, req_limit = 10000, cursor = None \<rparr> \<and>
   map_option published (step (Resume 0 (Events (Inl RpcUnavailable))) example_waiting) =
     Some (published example_waiting) \<and>
   published example_waiting = [example_msg ''a'' 5]"
proof -
  have p: "0 < length (pending example_waiting) \<and>
      pending example_waiting ! 0 =
        TickEvents 1 \<lparr> startLedger = Some 2720, req_limit = 10000, cursor = None \<rparr>"
    by (simp add: example_states)
  have "published example_waiting = [example_msg ''a'' 5]"
    by (simp add: example_states published_def)
  with p run_example_waiting
    live_fetch_failure_keeps_list [of "[example_msg ''a'' 5]" "\<lambda>req. Inl RpcUnavailable"
      "Num 2720" False
      "example_mount @ [TimerFire, Resume 0 (Ledger (Inr 20000))]" example_waiting 0 1
      "\<lparr> startLedger = Some 2720, req_limit = 10000, cursor = None \<rparr>"]
  show ?thesis by auto
qed

text \<open>
  C8. When the \<open>try\<close> block of \<open>getMessages\<close> throws, \<open>getMessages\<close> returns the
  empty list: \<open>callGetMessages\<close> publishes an empty list, \<open>error\<close> stays as it was,
  and \<open>onMount\<close> goes on to \<open>rpc.getLatestLedger()\<close>.
\<close>

theorem historical_fetch_failure_empty:
  "getMessages (Threw e) = [] \<and>
   published (callGetMessages (Threw e) s) = [] \<and>
   error (callGetMessages (Threw e) s) = error s \<and>
   resume MountMessages (Messages (Threw e)) s =
     Some (await MountLedger (callGetMessages (Threw e) s))"
  by (simp add: getMessages_def published_callGetMessages Array_sort_def)
    (simp add: callGetMessages_def Let_def)

theorem historical_fetch_failure_empty_witness:
  "published (callGetMessages (Threw IndexerUnavailable) init) = [] \<and>
   map_option published (run [OnMount, Resume 0 (Messages (Threw IndexerUnavailable))] init) =
     Some [] \<and>
   map_option pending (run [OnMount, Resume 0 (Messages (Threw IndexerUnavailable))] init) =
     Some [MountLedger]"
  using historical_fetch_failure_empty [of IndexerUnavailable init]
  by (simp add: step_defs Array_sort_def)

section \<open>The poll scheduler\<close>

text \<open>
  C6 (amended). While the interval is set, the timer can fire, and the callback it
  starts asks for the latest ledger; on the answer \<open>sequence\<close> it calls \<open>getEvents\<close>
  with the array \<open>msgs\<close> and the request that starts at ledger \<open>sequence - 17280\<close>,
  with no cursor: a window of fixed length behind the latest ledger, the same
  whatever earlier fetches returned. In every state the component can reach, every
  request that is under way has a start ledger and no cursor.
\<close>

theorem tick_rescans_window:
  "(timers s \<noteq> {} \<longrightarrow> step TimerFire s = Some (await TickLedger s)) \<and>
   (i < length (pending s) \<and> pending s ! i = TickLedger \<longrightarrow>
      step (Resume i (Ledger (Inr sequence))) s =
        Some (await (TickEvents (msgs s)
                \<lparr> startLedger = Some (sequence - 17280), req_limit = 10000, cursor = None \<rparr>)
              (s\<lparr> pending := remove_nth i (pending s) \<rparr>))) \<and>
   (run ls init = Some s' \<and> p \<in> set (pending s') \<and> request_of p = Some req \<longrightarrow>
      cursor req = None \<and> startLedger req \<noteq> None \<and> req_limit req = 10000)"
proof (intro conjI impI)
  assume a: "run ls init = Some s' \<and> p \<in> set (pending s') \<and> request_of p = Some req"
  then have "windowed s'" using reachable_windowed [of ls s'] by simp
  with a show "cursor req = None" "startLedger req \<noteq> None" "req_limit req = 10000"
    by (auto simp: windowed_def)
qed (simp_all add: tick_request_def getEvents_request_def)

theorem tick_rescans_window_witness:
  "timers example_running \<noteq> {} \<and>
   step TimerFire example_running = Some (await TickLedger example_running) \<and>
   0 < length (pending (await TickLedger example_running)) \<and>
   pending (await TickLedger example_running) ! 0 = TickLedger \<and>
   step (Resume 0 (Ledger (Inr 20000))) (await TickLedger example_running) = Some example_waiting \<and>
   run (example_mount @ [TimerFire, Resume 0 (Ledger (Inr 20000))]) init = Some example_waiting \<and>
   pending example_waiting =
     [TickEvents 1 \<lparr> startLedger = Some 2720, req_limit = 10000, cursor = None \<rparr>]"
  using tick_rescans_window [of example_running 0 20000]
    tick_rescans_window [of "await TickLedger example_running" 0 20000
      "example_mount @ [TimerFire, Resume 0 (Ledger (Inr 20000))]" example_waiting
      "TickEvents 1 \<lparr> startLedger = Some 2720, req_limit = 10000, cursor = None \<rparr>"
      "\<lparr> startLedger = Some 2720, req_limit = 10000, cursor = None \<rparr>"]
    run_example_waiting
  by (simp add: example_states step_defs)

text \<open>
  A tick after a fetch that brought a new record sends the request a tick before that
  fetch sends: start ledger 2720 for the latest ledger 20000, and no cursor.
\<close>

theorem tick_cursor_counterexample:
  "map_option pending (run (example_mount @ [TimerFire, Resume 0 (Ledger (Inr 20000))]) init) =
     Some [TickEvents 1 \<lparr> startLedger = Some 2720, req_limit = 10000, cursor = None \<rparr>] \<and>
   map_option published (run (example_mount @ example_tick) init) =
     Some [example_msg ''b'' 2, example_msg ''a'' 5] \<and>
   map_option pending
     (run (example_mount @ example_tick @ [TimerFire, Resume 0 (Ledger (Inr 20000))]) init) =
     Some [TickEvents 1 \<lparr> startLedger = Some 2720, req_limit = 10000, cursor = None \<rparr>]"
  by (simp add: run_append run_example_mount)
    (simp add: example_states step_defs eval_defs example_defs)

text \<open>
  C7 (amended). In every state the component can reach, the answer to a timer
  callback's \<open>getEvents\<close> changes the array that \<open>msgs\<close> refers to in place: the new
  records are pushed into it and it is sorted, \<open>msgs\<close> refers to the same array
  afterwards, no array is created and no other array changes. Only the answer to
  \<open>getMessages\<close> replaces the list: \<open>msgs\<close> then refers to a new array and the
  array published before is untouched.
\<close>

theorem fetch_in_place:
  "(run ls init = Some s \<and> i < length (pending s) \<and> pending s ! i = TickEvents r req \<longrightarrow>
      (\<exists>t. step (Resume i (Events response)) s = Some t \<and>
           msgs t = msgs s \<and> fresh t = fresh s \<and>
           heap t (msgs s) = reconcile (heap s (msgs s)) response \<and>
           (\<forall>r'. r' \<noteq> msgs s \<longrightarrow> heap t r' = heap s r'))) \<and>
   (run ls init = Some s \<and> i < length (pending s) \<and> pending s ! i = MountMessages \<longrightarrow>
      (\<exists>t. step (Resume i (Messages tried)) s = Some t \<and>
           msgs t \<noteq> msgs s \<and> heap t (msgs s) = heap s (msgs s) \<and>
           published t = Array_sort by_timestamp (getMessages tried)))"
proof (intro conjI impI)
  assume a: "run ls init = Some s \<and> i < length (pending s) \<and> pending s ! i = TickEvents r req"
  from a have inv: "Inv s" using reachable_Inv [of ls s] by simp
  from a have "TickEvents r req \<in> set (pending s)" by (metis nth_mem)
  with inv have r: "r = msgs s" by (auto simp: Inv_def arrays_current_def)
  with a show "\<exists>t. step (Resume i (Events response)) s = Some t \<and>
           msgs t = msgs s \<and> fresh t = fresh s \<and>
           heap t (msgs s) = reconcile (heap s (msgs s)) response \<and>
           (\<forall>r'. r' \<noteq> msgs s \<longrightarrow> heap t r' = heap s r')"
    by (simp add: callGetEvents_then_def reconcile_def Let_def)
next
  assume a: "run ls init = Some s \<and> i < length (pending s) \<and> pending s ! i = MountMessages"
  from a have inv: "Inv s" using reachable_Inv [of ls s] by simp
  then have "msgs s < fresh s" by (simp add: Inv_def heap_sorted_def)
  with a show "\<exists>t. step (Resume i (Messages tried)) s = Some t \<and>
           msgs t \<noteq> msgs s \<and> heap t (msgs s) = heap s (msgs s) \<and>
           published t = Array_sort by_timestamp (getMessages tried)"
    by (simp add: callGetMessages_def published_def await_def Let_def)
qed

theorem fetch_in_place_witness:
  "run (example_mount @ [TimerFire, Resume 0 (Ledger (Inr 20000))]) init = Some example_waiting \<and>
   map_option msgs (step (Resume 0
       (Events (Inr [example_event ''b'' 2 (ScAddressTypeAccount ''GABC'')]))) example_waiting) =
     Some (msgs example_waiting) \<and>
   map_option (array_at (msgs example_waiting)) (step (Resume 0
       (Events (Inr [example_event ''b'' 2 (ScAddressTypeAccount ''GABC'')]))) example_waiting) =
     Some [example_msg ''b'' 2, example_msg ''a'' 5] \<and>
   run [OnMount] init = Some (await MountMessages (init\<lparr> loading := True, mounted := True \<rparr>)) \<and>
   map_option msgs (step (Resume 0 (Messages (Returned [example_msg ''a'' 5])))
       (await MountMessages (init\<lparr> loading := True, mounted := True \<rparr>))) = Some 1 \<and>
   msgs init = 0"
  using run_example_waiting
    fetch_in_place [of "example_mount @ [TimerFire, Resume 0 (Ledger (Inr 20000))]"
      example_waiting 0 1 "\<lparr> startLedger = Some 2720, req_limit = 10000, cursor = None \<rparr>"
      "Inr [example_event ''b'' 2 (ScAddressTypeAccount ''GABC'')]"]
    fetch_in_place [of "[OnMount]" "await MountMessages (init\<lparr> loading := True, mounted := True \<rparr>)"
      0 1 "\<lparr> startLedger = Some 2720, req_limit = 10000, cursor = None \<rparr>" "Inr []"
      "Returned [example_msg ''a'' 5]"]
  by (simp add: example_states step_defs eval_defs example_defs)

text \<open>
  The array published after \<open>onMount\<close> is the array published after the next tick,
  with a record pushed into it and moved to the front by the sort.
\<close>

theorem fetch_in_place_counterexample:
  "map_option msgs (run example_mount init) = Some 1 \<and>
   map_option (array_at 1) (run example_mount init) = Some [example_msg ''a'' 5] \<and>
   map_option msgs (run (example_mount @ example_tick) init) = Some 1 \<and>
   map_option (array_at 1) (run (example_mount @ example_tick) init) =
     Some [example_msg ''b'' 2, example_msg ''a'' 5]"
  by (simp add: run_append run_example_mount)
    (simp add: example_states step_defs eval_defs example_defs)

text \<open>
  C9. \<open>onDestroy\<close> does not always stop the scheduler. When it runs while
  \<open>onMount\<close> is still waiting, \<open>interval\<close> is not assigned yet and nothing is
  cleared; \<open>onMount\<close> then sets the interval, nobody clears it, and the timer fires
  and the callback sends its request, whatever the answers were. And when it runs
  after the interval was set, a callback that is waiting for the latest ledger
  still sends a new \<open>getEvents\<close> request afterwards.
\<close>

theorem teardown_leaves_scheduler_running:
  "(\<exists>t. run [OnMount, OnDestroy, Resume 0 (Messages tried), Resume 0 (Ledger (Inr sequence)),
             Resume 0 (Events response), TimerFire, Resume 0 (Ledger (Inr sequence'))] init = Some t \<and>
        interval t = Some 1 \<and> timers t = {1} \<and>
        pending t = [TickEvents 1 \<lparr> startLedger = Some (sequence' - 17280),
                                     req_limit = 10000, cursor = None \<rparr>]) \<and>
   (\<exists>t. run (example_mount @ [TimerFire, OnDestroy, Resume 0 (Ledger (Inr sequence'))]) init = Some t \<and>
        timers t = {} \<and>
        pending t = [TickEvents 1 \<lparr> startLedger = Some (sequence' - 17280),
                                     req_limit = 10000, cursor = None \<rparr>])"
  by (simp add: run_append run_example_mount)
    (simp add: example_states step_defs)

theorem teardown_leaves_scheduler_running_witness:
  "map_option timers
     (run [OnMount, OnDestroy, Resume 0 (Messages FellThrough), Resume 0 (Ledger (Inr 20000)),
           Resume 0 (Events (Inr [])), TimerFire, Resume 0 (Ledger (Inr 20007))] init) = Some {1} \<and>
   map_option pending
     (run [OnMount, OnDestroy, Resume 0 (Messages FellThrough), Resume 0 (Ledger (Inr 20000)),
           Resume 0 (Events (Inr [])), TimerFire, Resume 0 (Ledger (Inr 20007))] init) =
     Some [TickEvents 1 \<lparr> startLedger = Some 2727, req_limit = 10000, cursor = None \<rparr>] \<and>
   map_option pending
     (run (example_mount @ [TimerFire, OnDestroy, Resume 0 (Ledger (Inr 20007))]) init) =
     Some [TickEvents 1 \<lparr> startLedger = Some 2727, req_limit = 10000, cursor = None \<rparr>]"
proof -
  from teardown_leaves_scheduler_running [of FellThrough 20000 "Inr []" 20007]
  obtain t u where
    t: "run [OnMount, OnDestroy, Resume 0 (Messages FellThrough), Resume 0 (Ledger (Inr 20000)),
           Resume 0 (Events (Inr [])), TimerFire, Resume 0 (Ledger (Inr 20007))] init = Some t"
      "timers t = {1}"
      "pending t = [TickEvents 1 \<lparr> startLedger = Some 2727, req_limit = 10000, cursor = None \<rparr>]"
    and u: "run (example_mount @ [TimerFire, OnDestroy, Resume 0 (Ledger (Inr 20007))]) init = Some u"
      "pending u = [TickEvents 1 \<lparr> startLedger = Some 2727, req_limit = 10000, cursor = None \<rparr>]"
    by auto
  show ?thesis
    unfolding t(1) u(1) by (simp add: t(2,3) u(2))
qed

text \<open>
  What \<open>onDestroy\<close> does achieve: in a reachable state whose interval is assigned,
  it clears the timer, and the timer does not fire in any run from there.
\<close>

lemma destroy_clears_set_interval:
  assumes "run ls0 init = Some s" and "interval s \<noteq> None"
    and "run (OnDestroy # ls) s = Some t"
  shows "TimerFire \<notin> set ls \<and> timers t = {}"
proof -
  have inv: "Inv s" using Inv_init assms(1) by (rule run_Inv)
  from assms(2) obtain h where h: "interval s = Some h" by auto
  with inv have "mounted s" "timers s \<subseteq> {h}" "\<forall>p \<in> set (pending s). \<not> is_mount p"
    by (auto simp: Inv_def lifecycle_def)
  then have "stopped (onDestroy s)" and "step OnDestroy s = Some (onDestroy s)"
    using h by (auto simp: stopped_def onDestroy_def)
  with assms(3) run_stopped [of "onDestroy s" ls t] show ?thesis
    by (simp add: stopped_def)
qed

section \<open>truncate\<close>

text \<open>
  C10 (amended). For every string \<open>s\<close> and every count \<open>n\<close> of at least 1,
  \<open>truncate s n\<close> is the first \<open>n\<close> characters of \<open>s\<close> (all of \<open>s\<close> when it is
  shorter), then three dots, then the last \<open>n\<close> characters of \<open>s\<close> (all of \<open>s\<close> when
  it is shorter); there is no guard on the length of \<open>s\<close>. So for a non-empty \<open>s\<close>
  shorter than \<open>2n\<close> the two parts overlap and characters of \<open>s\<close> are repeated, and
  for \<open>s\<close> shorter than \<open>2n + 3\<close> the output is longer than \<open>s\<close>. For the count 0
  the output is three dots and then the whole of \<open>s\<close>.
\<close>

theorem truncate_no_guard:
  "(0 < n \<longrightarrow>
      truncate s n = take (nat n) s @ ''...'' @ drop (length s - nat n) s \<and>
      (s \<noteq> [] \<and> int (length s) < 2 * n \<longrightarrow>
         length s < length (take (nat n) s) + length (drop (length s - nat n) s)) \<and>
      (int (length s) < 2 * n + 3 \<longrightarrow> length s < length (truncate s n))) \<and>
   truncate s 0 = ''...'' @ s"
proof (intro conjI impI)
  assume n: "0 < n"
  then show eq: "truncate s n = take (nat n) s @ ''...'' @ drop (length s - nat n) s"
    by (simp add: truncate_def slice_prefix slice_suffix)
  {
    assume "s \<noteq> [] \<and> int (length s) < 2 * n"
    then show "length s < length (take (nat n) s) + length (drop (length s - nat n) s)"
      using n by (cases s) (auto simp: min_def)
  }
  {
    assume "int (length s) < 2 * n + 3"
    then show "length s < length (truncate s n)"
      using n by (auto simp: eq min_def)
  }
next
  show "truncate s 0 = ''...'' @ s"
    by (simp add: truncate_def slice_all slice_none)
qed

theorem truncate_no_guard_witness:
  "(0::int) < 4 \<and> ''abc'' \<noteq> [] \<and> int (length ''abc'') < 2 * 4 \<and>
   truncate ''abc'' 4 = ''abc...abc'' \<and> length ''abc'' < length (truncate ''abc'' 4)"
  using truncate_no_guard [of 4 "''abc''"] by simp

text \<open>
  With the count 0 the last part is the whole string, not its last 0 characters; with
  a string of length \<open>2n\<close> the two parts do not overlap and nothing is repeated.
\<close>

theorem truncate_counterexample:
  "truncate ''abc'' 0 \<noteq> take 0 ''abc'' @ ''...'' @ drop (length ''abc'' - 0) ''abc'' \<and>
   truncate ''abcdefgh'' 4 = ''abcd...efgh'' \<and>
   \<not> length ''abcdefgh'' <
       length (slice ''abcdefgh'' 0 (Some 4)) + length (slice ''abcdefgh'' (- 4) None)"
  by (simp add: truncate_def slice_def slice_index_def)

end
